theory Spec2Isabelle
  imports Main "HOL-Library.Multiset"
begin

section \<open>Go values, errors and the host's data\<close>

text \<open>
  A Go call either returns an \<open>error\<close> value or panics (a failed type assertion, a nil
  pointer dereference). Both are branches of the model: a function that can fail returns
  \<open>fault + 'a\<close>, with \<open>Inl\<close> the failure.
\<close>

datatype fault = Error string | Panic string

text \<open>\<open>types.Image\<close> of the EC2 SDK: the pointer fields read by this file, \<open>None\<close> for nil.\<close>

record Image =
  ImageId :: "string option"
  OwnerId :: "string option"
  ImageOwnerAlias :: "string option"

text \<open>\<open>awsCommonColumnData\<close>: the caller's identity, as the cached hydrate call returns it.\<close>

record awsCommonColumnData =
  Partition :: string
  Region :: string
  AccountId :: string

section \<open>Row enrichment: \<open>getImageOwnerAlias\<close>\<close>

text \<open>
  \<open>getImageOwnerAlias\<close> (table_aws_ec2_ami_shared.go, lines 255-272). The first argument is
  what \<open>getCommonColumnsCached(ctx, d, h)\<close> returned. The test
  \<open>image.ImageOwnerAlias == nil && commonColumnData.AccountId != *image.OwnerId\<close>
  dereferences \<open>OwnerId\<close> only when the alias is nil; a nil \<open>OwnerId\<close> panics there.
\<close>

definition getImageOwnerAlias :: "fault + awsCommonColumnData \<Rightarrow> Image \<Rightarrow> fault + string" where
  "getImageOwnerAlias c img =
     (case c of
        Inl err \<Rightarrow> Inl err
      | Inr commonColumnData \<Rightarrow>
          (case ImageOwnerAlias img of
             None \<Rightarrow>
               (case OwnerId img of
                  None \<Rightarrow> Inl (Panic ''nil pointer dereference'')
                | Some owner \<Rightarrow>
                    if AccountId commonColumnData \<noteq> owner then Inr owner else Inr ''self'')
           | Some alias \<Rightarrow> Inr alias))"

section \<open>Dynamic values and formatting\<close>

text \<open>
  A Go \<open>interface{}\<close> value, as far as this file handles one: what the qualifier helper
  hands back, and the argument of \<open>fmt.Sprint\<close>.
\<close>

datatype go_value = GoNil | GoString string | GoBool bool | GoInt int | GoStrings "string list"

fun digits :: "nat \<Rightarrow> string" where
  "digits n = (if n < 10 then [''0123456789'' ! n] else digits (n div 10) @ [''0123456789'' ! (n mod 10)])"

declare digits.simps [simp del]

fun joinSpace :: "string list \<Rightarrow> string" where
  "joinSpace [] = []"
| "joinSpace [s] = s"
| "joinSpace (s # t # rest) = s @ '' '' @ joinSpace (t # rest)"

text \<open>\<open>fmt.Sprint\<close> of one operand, with the default (\<open>%v\<close>) format of each kind.\<close>

fun Sprint :: "go_value \<Rightarrow> string" where
  "Sprint GoNil = ''<nil>''"
| "Sprint (GoString s) = s"
| "Sprint (GoBool b) = (if b then ''true'' else ''false'')"
| "Sprint (GoInt i) = (if i < 0 then ''-'' @ digits (nat (- i)) else digits (nat i))"
| "Sprint (GoStrings xs) = ''['' @ joinSpace xs @ '']''"

fun HasPrefix :: "string \<Rightarrow> string \<Rightarrow> bool" where
  "HasPrefix s [] = True"
| "HasPrefix [] (p # ps) = False"
| "HasPrefix (c # cs) (p # ps) = (c = p \<and> HasPrefix cs ps)"

text \<open>\<open>strings.Contains(s, substr)\<close>: \<open>substr\<close> occurs in \<open>s\<close> as a contiguous run.\<close>

fun Contains :: "string \<Rightarrow> string \<Rightarrow> bool" where
  "Contains [] substr = (substr = [])"
| "Contains (c # cs) substr = (HasPrefix (c # cs) substr \<or> Contains cs substr)"

section \<open>Predicates and filters\<close>

text \<open>\<open>proto.QualValue\<close>: the literal of a predicate (the kinds this table's columns take).\<close>

datatype QualValue = StringValue string | BoolValue bool | Int64Value int

text \<open>The nil-safe getter \<open>(*QualValue).GetStringValue()\<close>: the empty string unless a string is held.\<close>

fun GetStringValue :: "QualValue option \<Rightarrow> string" where
  "GetStringValue (Some (StringValue s)) = s"
| "GetStringValue _ = []"

text \<open>
  One predicate (\<open>quals.Qual\<close>) and the predicates of one column (\<open>plugin.KeyColumnQuals\<close>,
  whose fields \<open>Name\<close> and \<open>Quals\<close> are \<open>ColumnName\<close> and \<open>QualSlice\<close> here). A
  \<open>plugin.KeyColumnQualMap\<close> is a map from column names to these; a column that is
  absent, or bound to nil, is \<open>None\<close>.
\<close>

record Qual =
  Column :: string
  Operator :: string
  Value :: QualValue

record KeyColumnQuals =
  ColumnName :: string
  QualSlice :: "Qual list"

type_synonym KeyColumnQualMap = "string \<rightharpoonup> KeyColumnQuals"

text \<open>\<open>types.Filter\<close> of the EC2 SDK: \<open>Name\<close> is a pointer, \<open>Values\<close> a slice (nil is \<open>[]\<close>).\<close>

record Filter =
  Name :: "string option"
  Values :: "string list"

text \<open>
  The helper \<open>getQualsValueByColumn(quals, columnName, dataType)\<close> belongs to this
  repository but is not among its source files here. \<open>buildAmisWithOwnerFilter\<close> takes it
  as its first argument, of this type.
\<close>

type_synonym qualsValueByColumn = "KeyColumnQualMap \<Rightarrow> string \<Rightarrow> string \<Rightarrow> go_value"

text \<open>
  Modelled from the spec: \<open>getQualsValueByColumn\<close>, the Qualifier Extractor, missing from
  the source files. "For each recognized column present in the map, the literal value
  coerced to its expected kind"; "Boolean coercion failure is tolerated by falling back to
  a formatted-string representation": a literal that is not of the expected kind comes
  back as it is, and the caller formats it. An absent column gives nil. Used to
  instantiate the helper at concrete inputs.
\<close>

fun literal :: "QualValue \<Rightarrow> go_value" where
  "literal (StringValue s) = GoString s"
| "literal (BoolValue b) = GoBool b"
| "literal (Int64Value i) = GoInt i"

definition getQualsValueByColumn :: qualsValueByColumn where
  "getQualsValueByColumn quals columnName dataType =
     (case quals columnName of
        None \<Rightarrow> GoNil
      | Some kq \<Rightarrow>
          (case QualSlice kq of
             [] \<Rightarrow> GoNil
           | q # _ \<Rightarrow>
               if dataType = ''boolean'' then
                 (case Value q of BoolValue b \<Rightarrow> GoBool b | v \<Rightarrow> literal v)
               else
                 (case Value q of StringValue s \<Rightarrow> GoString s | v \<Rightarrow> literal v)))"

section \<open>The filter translator: \<open>buildAmisWithOwnerFilter\<close>\<close>

text \<open>
  The map literal \<open>filterQuals\<close> (lines 279-296), entry by entry in the order of the
  source, and the slice \<open>columnsBool\<close> (line 298). The entry for \<open>image_id\<close> carries a
  trailing blank on both sides in the source.
\<close>

definition filterQuals :: "(string \<times> string) list" where
  "filterQuals =
     [(''architecture'', ''architecture''),
      (''description'', ''description''),
      (''ena_support'', ''ena-support''),
      (''hypervisor'', ''hypervisor''),
      (''image_id '', ''image-id ''),
      (''image_type'', ''image-type''),
      (''kernel_id'', ''kernel-id''),
      (''name'', ''name''),
      (''platform'', ''platform''),
      (''public'', ''is-public''),
      (''ramdisk_id'', ''ramdisk-id''),
      (''root_device_name'', ''root-device-name''),
      (''root_device_type'', ''root-device-type''),
      (''state'', ''state''),
      (''sriov_net_support'', ''sriov-net-support''),
      (''virtualization_type'', ''virtualization-type'')]"

definition columnsBool :: "string list" where
  "columnsBool = [''ena_support'', ''public'']"

text \<open>
  \<open>for columnName, filterName := range filterQuals\<close> visits the entries of a Go map, in
  an order the language leaves unspecified and that may change from one loop to the next.
  The order taken by a run is an argument of the model: any list holding each entry of
  the map once.
\<close>

definition rangeOrder :: "(string \<times> string) list \<Rightarrow> bool" where
  "rangeOrder entries \<longleftrightarrow> mset entries = mset filterQuals"

text \<open>The body of the loop for a column that is present (lines 302-314).\<close>

definition buildFilter :: "qualsValueByColumn \<Rightarrow> KeyColumnQualMap \<Rightarrow> string \<Rightarrow> string \<Rightarrow> Filter" where
  "buildFilter g quals columnName filterName =
     (let filter = \<lparr>Name = Some filterName, Values = []\<rparr> in
      if Contains (Sprint (GoStrings columnsBool)) columnName then
        filter\<lparr>Values := [Sprint (g quals columnName ''boolean'')]\<rparr>
      else
        (case g quals columnName ''string'' of
           GoString val \<Rightarrow> filter\<lparr>Values := [val]\<rparr>
         | _ \<Rightarrow> filter))"

text \<open>The loop (lines 300-317) over the entries in the order of the run.\<close>

fun rangeFilterQuals ::
  "qualsValueByColumn \<Rightarrow> KeyColumnQualMap \<Rightarrow> (string \<times> string) list \<Rightarrow> Filter list \<Rightarrow> Filter list" where
  "rangeFilterQuals g quals [] filters = filters"
| "rangeFilterQuals g quals ((columnName, filterName) # rest) filters =
     rangeFilterQuals g quals rest
       (if quals columnName \<noteq> None then filters @ [buildFilter g quals columnName filterName]
        else filters)"

text \<open>
  The entries of the run whose column the predicate map holds, in the order of the run:
  the iterations of the loop that append a filter.
\<close>

definition present :: "KeyColumnQualMap \<Rightarrow> (string \<times> string) list \<Rightarrow> (string \<times> string) list" where
  "present quals entries = filter (\<lambda>e. quals (fst e) \<noteq> None) entries"

text \<open>The filters of those iterations, in the order of the run.\<close>

definition columnFilters ::
  "qualsValueByColumn \<Rightarrow> KeyColumnQualMap \<Rightarrow> (string \<times> string) list \<Rightarrow> Filter list" where
  "columnFilters g quals entries =
     map (\<lambda>e. buildFilter g quals (fst e) (snd e)) (present quals entries)"

text \<open>
  What a run does to its surroundings, in order: a call of the cached identity hydrate
  (\<open>getCommonColumnsCached\<close>); a call of the provider, with its request and the error it
  returned, if any; \<open>d.StreamListItem\<close> with its row; \<open>d.QueryStatus.RowsRemaining\<close> with
  its answer. A function of the model takes the log so far and returns it extended.
\<close>

datatype ('row, 'req) event =
  EvIdentity
| EvApiCall 'req "fault option"
| EvStream 'row
| EvCheck int

text \<open>
  \<open>buildAmisWithOwnerFilter\<close> (lines 276-339). \<open>entries\<close> is the order in which the run
  visits the map, \<open>getCommonColumnsCached\<close> what the identity call returns when made. The
  type assertion \<open>.(string)\<close> of line 323 panics on a value that is not a string.
\<close>

definition buildAmisWithOwnerFilter ::
  "qualsValueByColumn \<Rightarrow> (string \<times> string) list \<Rightarrow> fault + awsCommonColumnData \<Rightarrow>
   KeyColumnQualMap \<Rightarrow> string \<Rightarrow> ('row, 'req) event list \<Rightarrow>
   (fault + Filter list) \<times> ('row, 'req) event list" where
  "buildAmisWithOwnerFilter g entries getCommonColumnsCached quals amiType log =
     (let filters = rangeFilterQuals g quals entries [] in
      if amiType \<noteq> ''SHARED_AMI'' then
        (if quals ''owner_id'' \<noteq> None then
           (case g quals ''owner_id'' ''string'' of
              GoString v \<Rightarrow> (Inr (filters @ [\<lparr>Name = Some ''owner-id'', Values = [v]\<rparr>]), log)
            | _ \<Rightarrow> (Inl (Panic ''interface conversion: not a string''), log))
         else
           (case getCommonColumnsCached of
              Inl err \<Rightarrow> (Inr filters, log @ [EvIdentity])
            | Inr commonColumnData \<Rightarrow>
                (Inr (filters @ [\<lparr>Name = Some ''owner-id'', Values = [AccountId commonColumnData]\<rparr>]),
                 log @ [EvIdentity])))
      else (Inr filters, log))"

section \<open>The host's query data and the event log\<close>

text \<open>
  \<open>plugin.QueryData\<close>, as far as the listing functions read it: \<open>d.KeyColumnQuals\<close> (the
  equality predicates, column to literal), \<open>d.Quals\<close>, and the query status behind
  \<open>d.QueryStatus.RowsRemaining(ctx)\<close>. The host answers that call from the rows it has
  been given so far (its row limit, a cancellation); the field is the answer as a
  function of the number of rows streamed.
\<close>

record QueryData =
  KeyColumnQuals :: "string \<rightharpoonup> QualValue"
  Quals :: KeyColumnQualMap
  RowsRemaining :: "nat \<Rightarrow> int"

text \<open>What a log says: the rows streamed, and the provider calls with their errors.\<close>

fun rows_of :: "('row, 'req) event list \<Rightarrow> 'row list" where
  "rows_of [] = []"
| "rows_of (EvStream x # es) = x # rows_of es"
| "rows_of (EvIdentity # es) = rows_of es"
| "rows_of (EvApiCall req err # es) = rows_of es"
| "rows_of (EvCheck r # es) = rows_of es"

fun calls_of :: "('row, 'req) event list \<Rightarrow> ('req \<times> fault option) list" where
  "calls_of [] = []"
| "calls_of (EvApiCall req err # es) = (req, err) # calls_of es"
| "calls_of (EvIdentity # es) = calls_of es"
| "calls_of (EvStream x # es) = calls_of es"
| "calls_of (EvCheck r # es) = calls_of es"

text \<open>Every streamed row of the log is followed at once by a \<open>RowsRemaining\<close> check.\<close>

fun checkedAfterEachRow :: "('row, 'req) event list \<Rightarrow> bool" where
  "checkedAfterEachRow [] = True"
| "checkedAfterEachRow [EvStream x] = False"
| "checkedAfterEachRow (EvStream x # EvCheck r # es) = checkedAfterEachRow es"
| "checkedAfterEachRow (EvStream x # EvStream y # es) = False"
| "checkedAfterEachRow (EvStream x # EvIdentity # es) = False"
| "checkedAfterEachRow (EvStream x # EvApiCall req err # es) = False"
| "checkedAfterEachRow (EvIdentity # es) = checkedAfterEachRow es"
| "checkedAfterEachRow (EvApiCall req err # es) = checkedAfterEachRow es"
| "checkedAfterEachRow (EvCheck r # es) = checkedAfterEachRow es"

text \<open>
  How a listing function returns without error. All three are \<open>return nil, nil\<close> in the
  source; the tag tells the return statements apart: the end of the loops (\<open>Done\<close>), the
  return inside the row loop when no rows remain (\<open>StoppedEarly\<close>), and the return for a
  nil client (\<open>NoData\<close>).
\<close>

datatype halt = Done | StoppedEarly | NoData

text \<open>
  The events on which a listing function returns at once, with what it then returns: a
  \<open>RowsRemaining\<close> check that answers 0, and a provider call that returns an error.
\<close>

fun verdict :: "('row, 'req) event \<Rightarrow> (fault + halt) option" where
  "verdict (EvCheck r) = (if r = 0 then Some (Inr StoppedEarly) else None)"
| "verdict (EvApiCall req (Some err)) = Some (Inl err)"
| "verdict (EvApiCall req None) = None"
| "verdict EvIdentity = None"
| "verdict (EvStream x) = None"

text \<open>
  A stretch of log is quiet when none of its events makes the function return; it is
  settled for a result when it is quiet, or quiet up to a last event that returns that
  result.
\<close>

definition quiet :: "('row, 'req) event list \<Rightarrow> bool" where
  "quiet es \<longleftrightarrow> (\<forall>ev \<in> set es. verdict ev = None)"

definition settled :: "fault + halt \<Rightarrow> ('row, 'req) event list \<Rightarrow> bool" where
  "settled r es \<longleftrightarrow> quiet es \<or> (\<exists>m ev. es = m @ [ev] \<and> quiet m \<and> verdict ev = Some r)"

section \<open>The row loop\<close>

text \<open>
  The loop over the items of one response (lines 244-251 of the AMI file, lines 61-68 of
  the resource-type file): stream the item, then ask whether rows remain; \<open>True\<close> is the
  \<open>return nil, nil\<close> inside the loop.
\<close>

fun emitRows :: "QueryData \<Rightarrow> 'row list \<Rightarrow> ('row, 'req) event list \<Rightarrow> bool \<times> ('row, 'req) event list" where
  "emitRows d [] log = (False, log)"
| "emitRows d (x # xs) log =
     (let log1 = log @ [EvStream x];
          r = RowsRemaining d (length (rows_of log1));
          log2 = log1 @ [EvCheck r]
      in if r = 0 then (True, log2) else emitRows d xs log2)"

section \<open>The AMI listing: \<open>listAmisByOwner\<close>\<close>

text \<open>
  \<open>ec2.DescribeImagesInput\<close> with the two fields the function sets (\<open>Filters\<close> stays nil
  when no filter was built), and the client: \<open>svc.DescribeImages\<close>, returning an error or
  \<open>resp.Images\<close>. The request holds no continuation token and the response is read for
  its images only.
\<close>

record DescribeImagesInput =
  Owners :: "string list"
  Filters :: "Filter list option"

type_synonym ec2Client = "DescribeImagesInput \<Rightarrow> fault + Image list"

text \<open>
  The request that lines 219 and 228-236 build: the owner from the equality predicate on
  \<open>owner_id\<close>, the filters of the translator when there are any.
\<close>

definition amiRequest ::
  "qualsValueByColumn \<Rightarrow> (string \<times> string) list \<Rightarrow> QueryData \<Rightarrow> DescribeImagesInput" where
  "amiRequest g entries d =
     \<lparr>Owners = [GetStringValue (KeyColumnQuals d ''owner_id'')],
      Filters = (if columnFilters g (Quals d) entries = [] then None
                 else Some (columnFilters g (Quals d) entries))\<rparr>"

text \<open>
  \<open>listAmisByOwner\<close> (lines 217-253). \<open>EC2Client\<close> is what \<open>EC2Client(ctx, d)\<close> returned;
  \<open>g\<close>, \<open>entries\<close> and \<open>getCommonColumnsCached\<close> are handed on to
  \<open>buildAmisWithOwnerFilter\<close>.
\<close>

definition listAmisByOwner ::
  "qualsValueByColumn \<Rightarrow> (string \<times> string) list \<Rightarrow> fault + awsCommonColumnData \<Rightarrow>
   fault + ec2Client \<Rightarrow> QueryData \<Rightarrow> (Image, DescribeImagesInput) event list \<Rightarrow>
   (fault + halt) \<times> (Image, DescribeImagesInput) event list" where
  "listAmisByOwner g entries getCommonColumnsCached EC2Client d log =
     (let owner_id = GetStringValue (KeyColumnQuals d ''owner_id'') in
      case EC2Client of
        Inl err \<Rightarrow> (Inl err, log)
      | Inr svc \<Rightarrow>
          (let input = \<lparr>Owners = [owner_id], Filters = None\<rparr> in
           case buildAmisWithOwnerFilter g entries getCommonColumnsCached (Quals d) ''SHARED_AMI'' log of
             (Inl p, log1) \<Rightarrow> (Inl p, log1)
           | (Inr filters, log1) \<Rightarrow>
               (let input = (if length filters \<noteq> 0 then input\<lparr>Filters := Some filters\<rparr> else input) in
                case svc input of
                  Inl err \<Rightarrow> (Inl err, log1 @ [EvApiCall input (Some err)])
                | Inr images \<Rightarrow>
                    (case emitRows d images (log1 @ [EvApiCall input None]) of
                       (stopped, log2) \<Rightarrow>
                         if stopped then (Inr StoppedEarly, log2) else (Inr Done, log2)))))"

text \<open>
  A provider that holds its images in pages. The request of \<open>listAmisByOwner\<close> has no
  field for a continuation token, so every call is answered with the first page.
\<close>

definition pagedImages :: "Image list list \<Rightarrow> ec2Client" where
  "pagedImages pages input = Inr (case pages of [] \<Rightarrow> [] | page # rest \<Rightarrow> page)"

section \<open>The resource-type listing: \<open>listAWSExplorerSupportedTypes\<close>\<close>

text \<open>
  \<open>types.SupportedResourceType\<close>, the request and the response of
  \<open>ListSupportedResourceTypes\<close> (the response's \<open>NextToken\<close> is \<open>OutputNextToken\<close> here),
  and the client.
\<close>

record SupportedResourceType =
  ResourceType :: "string option"
  Service :: "string option"

record ListSupportedResourceTypesInput =
  MaxResults :: "int option"
  NextToken :: "string option"

record ListSupportedResourceTypesOutput =
  ResourceTypes :: "SupportedResourceType list"
  OutputNextToken :: "string option"

type_synonym explorerClient = "ListSupportedResourceTypesInput \<Rightarrow> fault + ListSupportedResourceTypesOutput"

text \<open>
  Modelled from the spec: the paginator \<open>ListSupportedResourceTypesPaginator\<close> of the
  provider's SDK, which the source files use but do not hold. "Page Cursor: opaque
  continuation token plus a duplicate-detection flag"; "\<open>ListResources(filters, pageSize,
  dedupeToken) -> (items, nextPageToken)\<close>, called repeatedly until no more pages"; "never
  re-emits a page once consumed (monotonic cursor, duplicate-token stop)". There is a
  page to fetch before the first call and, after a call, as long as the response held a
  non-empty token; with the flag set, a token equal to the one just sent ends the
  listing. A failed call leaves the cursor as it was.
\<close>

record ListSupportedResourceTypesPaginatorOptions =
  Limit :: int
  StopOnDuplicateToken :: bool

record Paginator =
  options :: ListSupportedResourceTypesPaginatorOptions
  firstPage :: bool
  nextToken :: "string option"

definition NewListSupportedResourceTypesPaginator ::
  "(ListSupportedResourceTypesPaginatorOptions \<Rightarrow> ListSupportedResourceTypesPaginatorOptions) \<Rightarrow> Paginator" where
  "NewListSupportedResourceTypesPaginator optFn =
     \<lparr>options = optFn \<lparr>Limit = 0, StopOnDuplicateToken = False\<rparr>, firstPage = True, nextToken = None\<rparr>"

definition HasMorePages :: "Paginator \<Rightarrow> bool" where
  "HasMorePages p \<longleftrightarrow>
     firstPage p \<or> (case nextToken p of None \<Rightarrow> False | Some t \<Rightarrow> length t \<noteq> 0)"

definition pageParams :: "Paginator \<Rightarrow> ListSupportedResourceTypesInput" where
  "pageParams p =
     \<lparr>MaxResults = (if Limit (options p) > 0 then Some (Limit (options p)) else None),
      NextToken = nextToken p\<rparr>"

definition NextPage ::
  "explorerClient \<Rightarrow> Paginator \<Rightarrow> (SupportedResourceType, ListSupportedResourceTypesInput) event list \<Rightarrow>
   (fault + ListSupportedResourceTypesOutput) \<times> Paginator \<times>
   (SupportedResourceType, ListSupportedResourceTypesInput) event list" where
  "NextPage svc p log =
     (if \<not> HasMorePages p then (Inl (Error ''no more pages available''), p, log)
      else
        (let params = pageParams p in
         case svc params of
           Inl err \<Rightarrow> (Inl err, p, log @ [EvApiCall params (Some err)])
         | Inr result \<Rightarrow>
             (let prevToken = nextToken p;
                  p1 = p\<lparr>firstPage := False, nextToken := OutputNextToken result\<rparr>;
                  p2 = (if StopOnDuplicateToken (options p) \<and> prevToken \<noteq> None \<and>
                           nextToken p1 \<noteq> None \<and> prevToken = nextToken p1
                        then p1\<lparr>nextToken := None\<rparr> else p1)
              in (Inr result, p2, log @ [EvApiCall params None]))))"

text \<open>
  The loop \<open>for paginator.HasMorePages()\<close> (lines 54-69). It runs as long as the provider
  keeps handing out fresh tokens, so it need not return: \<open>None\<close> is a run that goes on
  for ever.
\<close>

partial_function (option) pageLoop ::
  "explorerClient \<Rightarrow> QueryData \<Rightarrow> Paginator \<Rightarrow>
   (SupportedResourceType, ListSupportedResourceTypesInput) event list \<Rightarrow>
   ((fault + halt) \<times> (SupportedResourceType, ListSupportedResourceTypesInput) event list) option" where
  "pageLoop svc d paginator log =
     (if HasMorePages paginator then
        (case NextPage svc paginator log of
           (Inl err, paginator', log1) \<Rightarrow> Some (Inl err, log1)
         | (Inr output, paginator', log1) \<Rightarrow>
             (case emitRows d (ResourceTypes output) log1 of
                (stopped, log2) \<Rightarrow>
                  if stopped then Some (Inr StoppedEarly, log2)
                  else pageLoop svc d paginator' log2))
      else Some (Inr Done, log))"

text \<open>
  \<open>listAWSExplorerSupportedTypes\<close> (lines 37-72). \<open>ResourceExplorerClient\<close> is what
  \<open>ResourceExplorerClient(ctx, d, getDefaultAwsRegion(d))\<close> returned: an error, a nil
  client (\<open>None\<close>) or a client.
\<close>

definition listAWSExplorerSupportedTypes ::
  "fault + explorerClient option \<Rightarrow> QueryData \<Rightarrow>
   (SupportedResourceType, ListSupportedResourceTypesInput) event list \<Rightarrow>
   ((fault + halt) \<times> (SupportedResourceType, ListSupportedResourceTypesInput) event list) option" where
  "listAWSExplorerSupportedTypes ResourceExplorerClient d log =
     (case ResourceExplorerClient of
        Inl err \<Rightarrow> Some (Inl err, log)
      | Inr None \<Rightarrow> Some (Inr NoData, log)
      | Inr (Some svc) \<Rightarrow>
          pageLoop svc d
            (NewListSupportedResourceTypesPaginator (\<lambda>opts. opts\<lparr>Limit := 100, StopOnDuplicateToken := True\<rparr>))
            log)"

text \<open>
  A provider that holds its answers in pages, each a list of items or an error, and
  serves them in order: the call without token gets page 0 and the token of page 1, the
  call with the token of page \<open>i\<close> gets page \<open>i\<close>, and the last page comes without a token.
  The token of page \<open>i\<close> is \<open>i\<close> letters long.
\<close>

definition pageToken :: "nat \<Rightarrow> string" where
  "pageToken i = replicate i CHR ''p''"

definition pagedProvider :: "(fault + SupportedResourceType list) list \<Rightarrow> explorerClient" where
  "pagedProvider pages params =
     (let i = (case NextToken params of None \<Rightarrow> 0 | Some t \<Rightarrow> length t) in
      if i < length pages then
        (case pages ! i of
           Inl err \<Rightarrow> Inl err
         | Inr items \<Rightarrow>
             Inr \<lparr>ResourceTypes = items,
                  OutputNextToken = (if i + 1 < length pages then Some (pageToken (i + 1)) else None)\<rparr>)
      else Inr \<lparr>ResourceTypes = [], OutputNextToken = None\<rparr>)"

text \<open>
  The cursor and the request of the listing when it is about to fetch page \<open>i\<close> of such a
  provider: the fresh paginator of line 49 for page 0, the token of page \<open>i\<close> after that.
\<close>

definition cursor :: "nat \<Rightarrow> Paginator" where
  "cursor i =
     (if i = 0 then
        NewListSupportedResourceTypesPaginator (\<lambda>opts. opts\<lparr>Limit := 100, StopOnDuplicateToken := True\<rparr>)
      else \<lparr>options = \<lparr>Limit = 100, StopOnDuplicateToken = True\<rparr>, firstPage = False,
            nextToken = Some (pageToken i)\<rparr>)"

definition pageRequest :: "nat \<Rightarrow> ListSupportedResourceTypesInput" where
  "pageRequest i = \<lparr>MaxResults = Some 100, NextToken = (if i = 0 then None else Some (pageToken i))\<rparr>"

section \<open>Facts about the static table and the loop\<close>



lemma filterQuals_no_owner_key: "''owner-id'' \<notin> snd ` set filterQuals"
  by (simp add: filterQuals_def)



lemma rangeOrder_set: "rangeOrder entries \<Longrightarrow> set entries = set filterQuals"
  unfolding rangeOrder_def by (rule mset_eq_setD)



lemma rangeFilterQuals_map:
  "rangeFilterQuals g quals entries filters = filters @ columnFilters g quals entries"
  by (induction entries arbitrary: filters) (auto simp: present_def columnFilters_def)

lemma buildFilter_Name [simp]: "Name (buildFilter g quals c k) = Some k"
  by (simp add: buildFilter_def Let_def split: go_value.splits)






lemma columnFilters_names:
  "f \<in> set (columnFilters g quals entries) \<Longrightarrow>
   \<exists>e \<in> set entries. quals (fst e) \<noteq> None \<and> Name f = Some (snd e)"
  by (auto simp: columnFilters_def present_def)

lemma columnFilters_mset:
  "mset entries = mset entries' \<Longrightarrow>
   mset (columnFilters g quals entries) = mset (columnFilters g quals entries')"
  by (simp add: columnFilters_def present_def)

lemma columnFilters_no_owner:
  assumes "rangeOrder entries" "f \<in> set (columnFilters g quals entries)"
  shows "Name f \<noteq> Some ''owner-id''"
proof -
  from columnFilters_names [OF assms(2)] obtain e where
    e: "e \<in> set entries" "Name f = Some (snd e)" by blast
  from e(1) rangeOrder_set [OF assms(1)] have "snd e \<in> snd ` set filterQuals" by blast
  with filterQuals_no_owner_key have "snd e \<noteq> ''owner-id''" by metis
  with e(2) show ?thesis by simp
qed

text \<open>The three ways out of \<open>buildAmisWithOwnerFilter\<close>.\<close>

lemma buildAmis_shared:
  "buildAmisWithOwnerFilter g entries cc quals ''SHARED_AMI'' log =
     (Inr (columnFilters g quals entries), log)"
  by (simp add: buildAmisWithOwnerFilter_def rangeFilterQuals_map)

lemma buildAmis_identity:
  assumes "amiType \<noteq> ''SHARED_AMI''" "quals ''owner_id'' = None"
  shows "buildAmisWithOwnerFilter g entries cc quals amiType log =
     (case cc of
        Inl err \<Rightarrow> (Inr (columnFilters g quals entries), log @ [EvIdentity])
      | Inr c \<Rightarrow> (Inr (columnFilters g quals entries @
                         [\<lparr>Name = Some ''owner-id'', Values = [AccountId c]\<rparr>]),
                   log @ [EvIdentity]))"
  using assms by (simp add: buildAmisWithOwnerFilter_def rangeFilterQuals_map split: sum.splits)

lemma buildAmis_explicit_owner:
  assumes "amiType \<noteq> ''SHARED_AMI''" "quals ''owner_id'' \<noteq> None"
  shows "buildAmisWithOwnerFilter g entries cc quals amiType log =
     (case g quals ''owner_id'' ''string'' of
        GoString v \<Rightarrow> (Inr (columnFilters g quals entries @
                              [\<lparr>Name = Some ''owner-id'', Values = [v]\<rparr>]), log)
      | _ \<Rightarrow> (Inl (Panic ''interface conversion: not a string''), log))"
  using assms by (simp add: buildAmisWithOwnerFilter_def rangeFilterQuals_map split: go_value.splits)

lemma rangeOrder_filterQuals: "rangeOrder filterQuals"
  by (simp add: rangeOrder_def)

lemma rangeOrder_rev: "rangeOrder (rev filterQuals)"
  by (simp add: rangeOrder_def)

section \<open>Facts about logs and the row loop\<close>

lemma rows_of_append [simp]: "rows_of (a @ b) = rows_of a @ rows_of b"
  by (induction a rule: rows_of.induct) simp_all

lemma calls_of_append [simp]: "calls_of (a @ b) = calls_of a @ calls_of b"
  by (induction a rule: calls_of.induct) simp_all

lemma checked_append:
  "checkedAfterEachRow a \<Longrightarrow> checkedAfterEachRow (a @ b) = checkedAfterEachRow b"
  by (induction a rule: checkedAfterEachRow.induct) simp_all

lemma quiet_Nil [simp]: "quiet []"
  by (simp add: quiet_def)

lemma quiet_append [simp]: "quiet (a @ b) \<longleftrightarrow> quiet a \<and> quiet b"
  by (auto simp: quiet_def)

lemma quiet_Cons [simp]: "quiet (e # es) \<longleftrightarrow> verdict e = None \<and> quiet es"
  by (simp add: quiet_def)

lemma settled_prepend: "quiet q \<Longrightarrow> settled r es \<Longrightarrow> settled r (q @ es)"
  unfolding settled_def
proof (erule disjE)
  assume "quiet q" "quiet es"
  then show "quiet (q @ es) \<or> (\<exists>m ev. q @ es = m @ [ev] \<and> quiet m \<and> verdict ev = Some r)"
    by simp
next
  assume q: "quiet q" and "\<exists>m ev. es = m @ [ev] \<and> quiet m \<and> verdict ev = Some r"
  then obtain m ev where "es = m @ [ev]" "quiet m" "verdict ev = Some r" by blast
  with q have "q @ es = (q @ m) @ [ev] \<and> quiet (q @ m) \<and> verdict ev = Some r" by simp
  then show "quiet (q @ es) \<or> (\<exists>m ev. q @ es = m @ [ev] \<and> quiet m \<and> verdict ev = Some r)"
    by blast
qed

text \<open>In a settled stretch, an event that returns is the last one and gives the result.\<close>

lemma settled_last:
  assumes "settled r es" and "es = pre @ ev # post" and "verdict ev \<noteq> None"
  shows "post = [] \<and> verdict ev = Some r"
proof -
  from assms(2) have "ev \<in> set es" by simp
  with assms(3) have "\<not> quiet es" by (auto simp: quiet_def)
  with assms(1) obtain m e where m: "es = m @ [e]" "quiet m" "verdict e = Some r"
    unfolding settled_def by blast
  show ?thesis
  proof (cases post rule: rev_cases)
    case Nil
    with assms(2) m(1) have "ev = e" by simp
    with m(3) Nil show ?thesis by simp
  next
    case (snoc post' z)
    with assms(2) m(1) have "m = pre @ ev # post'" by simp
    with m(2) assms(3) show ?thesis by simp
  qed
qed

lemma emitRows_log:
  "\<exists>new. snd (emitRows d xs log) = log @ new \<and> calls_of new = [] \<and> EvIdentity \<notin> set new \<and>
         checkedAfterEachRow new \<and>
         (if fst (emitRows d xs log)
          then (\<exists>m. new = m @ [EvCheck 0] \<and> quiet m) \<and> rows_of new = take (length (rows_of new)) xs
          else quiet new \<and> rows_of new = xs)"
proof (induction xs arbitrary: log)
  case Nil
  then show ?case by simp
next
  case (Cons x xs)
  let ?r = "RowsRemaining d (length (rows_of (log @ [EvStream x])))"
  let ?log2 = "log @ [EvStream x, EvCheck ?r]"
  show ?case
  proof (cases "?r = 0")
    case True
    then have e: "emitRows d (x # xs) log = (True, log @ [EvStream x, EvCheck 0])"
      by (simp add: Let_def)
    show ?thesis
      unfolding e
      by (rule exI [of _ "[EvStream x, EvCheck 0]"]) (simp add: exI [of _ "[EvStream x]"])
  next
    case False
    then have e: "emitRows d (x # xs) log = emitRows d xs ?log2"
      by (simp add: Let_def)
    from Cons.IH [of ?log2] obtain new where
      new: "snd (emitRows d xs ?log2) = ?log2 @ new" "calls_of new = []" "EvIdentity \<notin> set new"
        "checkedAfterEachRow new"
        "if fst (emitRows d xs ?log2)
          then (\<exists>m. new = m @ [EvCheck 0] \<and> quiet m) \<and> rows_of new = take (length (rows_of new)) xs
          else quiet new \<and> rows_of new = xs"
      by blast
    let ?new = "[EvStream x, EvCheck ?r] @ new"
    have "snd (emitRows d (x # xs) log) = log @ ?new" using e new(1) by simp
    moreover have "calls_of ?new = []" using new(2) by simp
    moreover have "EvIdentity \<notin> set ?new" using new(3) by simp
    moreover have "checkedAfterEachRow ?new" using new(4) by simp
    moreover have "if fst (emitRows d (x # xs) log)
          then (\<exists>m. ?new = m @ [EvCheck 0] \<and> quiet m) \<and> rows_of ?new = take (length (rows_of ?new)) (x # xs)
          else quiet ?new \<and> rows_of ?new = x # xs"
    proof (cases "fst (emitRows d xs ?log2)")
      case True
      with new(5) obtain m where m: "new = m @ [EvCheck 0]" "quiet m"
        and t: "rows_of new = take (length (rows_of new)) xs" by auto
      from m False have "?new = ([EvStream x, EvCheck ?r] @ m) @ [EvCheck 0] \<and> quiet ([EvStream x, EvCheck ?r] @ m)"
        by simp
      then have "\<exists>m. ?new = m @ [EvCheck 0] \<and> quiet m" by blast
      moreover from t have "rows_of ?new = take (length (rows_of ?new)) (x # xs)" by simp
      ultimately show ?thesis using True e by simp
    next
      case F: False
      with new(5) False e show ?thesis by simp
    qed
    ultimately show ?thesis by blast
  qed
qed

lemma emitRows_never_stops:
  "\<forall>n. RowsRemaining d n \<noteq> 0 \<Longrightarrow> fst (emitRows d xs log) = False"
  by (induction xs arbitrary: log) (simp_all add: Let_def)

section \<open>Facts about the AMI listing\<close>

lemma listAmisByOwner_no_client:
  "listAmisByOwner g entries cc (Inl err) d log = (Inl err, log)"
  by (simp add: listAmisByOwner_def)

lemma listAmisByOwner_client:
  "listAmisByOwner g entries cc (Inr svc) d log =
     (case svc (amiRequest g entries d) of
        Inl err \<Rightarrow> (Inl err, log @ [EvApiCall (amiRequest g entries d) (Some err)])
      | Inr images \<Rightarrow>
          (let run = emitRows d images (log @ [EvApiCall (amiRequest g entries d) None])
           in (if fst run then Inr StoppedEarly else Inr Done, snd run)))"
  by (simp add: listAmisByOwner_def buildAmis_shared amiRequest_def Let_def
      split: sum.splits prod.splits)


lemma listAmisByOwner_log:
  "\<exists>new. snd (listAmisByOwner g entries cc client d log) = log @ new \<and>
         settled (fst (listAmisByOwner g entries cc client d log)) new \<and>
         EvIdentity \<notin> set new \<and> checkedAfterEachRow new \<and>
         (\<forall>req err. (req, err) \<in> set (calls_of new) \<longrightarrow> req = amiRequest g entries d)"
proof (cases client)
  case (Inl err)
  then show ?thesis by (simp add: listAmisByOwner_no_client settled_def)
next
  case (Inr svc)
  let ?rq = "amiRequest g entries d"
  show ?thesis
  proof (cases "svc ?rq")
    case (Inl err)
    have "settled (Inl err) [EvApiCall ?rq (Some err)]"
      unfolding settled_def by (intro disjI2 exI [of _ "[]"] exI [of _ "EvApiCall ?rq (Some err)"]) simp
    with Inl Inr show ?thesis
      by (intro exI [of _ "[EvApiCall ?rq (Some err)]"]) (simp add: listAmisByOwner_client)
  next
    case images: (Inr images)
    let ?log1 = "log @ [EvApiCall ?rq None]"
    from emitRows_log [of d images ?log1] obtain new where
      new: "snd (emitRows d images ?log1) = ?log1 @ new" "calls_of new = []" "EvIdentity \<notin> set new"
        "checkedAfterEachRow new"
        "if fst (emitRows d images ?log1)
          then (\<exists>m. new = m @ [EvCheck 0] \<and> quiet m) \<and> rows_of new = take (length (rows_of new)) images
          else quiet new \<and> rows_of new = images"
      by blast
    let ?new = "[EvApiCall ?rq None] @ new"
    have res: "listAmisByOwner g entries cc client d log =
        (if fst (emitRows d images ?log1) then Inr StoppedEarly else Inr Done, log @ ?new)"
      using Inr images new(1) by (simp add: listAmisByOwner_client Let_def)
    have s: "settled (if fst (emitRows d images ?log1) then Inr StoppedEarly else Inr Done) new"
    proof (cases "fst (emitRows d images ?log1)")
      case True
      with new(5) obtain m where "new = m @ [EvCheck 0]" "quiet m" by auto
      then have "new = m @ [EvCheck 0] \<and> quiet m \<and> verdict (EvCheck 0 :: (Image, DescribeImagesInput) event) = Some (Inr StoppedEarly)"
        by simp
      then show ?thesis using True unfolding settled_def by auto
    next
      case False
      with new(5) show ?thesis by (simp add: settled_def)
    qed
    have "settled (if fst (emitRows d images ?log1) then Inr StoppedEarly else Inr Done) ?new"
      by (rule settled_prepend [OF _ s]) simp
    moreover have "EvIdentity \<notin> set ?new" using new(3) by simp
    moreover have "checkedAfterEachRow ?new" using new(4) by simp
    moreover have "\<forall>req err. (req, err) \<in> set (calls_of ?new) \<longrightarrow> req = ?rq" using new(2) by simp
    ultimately show ?thesis unfolding res by (intro exI [of _ ?new]) simp
  qed
qed

section \<open>Facts about the resource-type listing\<close>

lemma pageLoop_exhausted:
  "\<not> HasMorePages p \<Longrightarrow> pageLoop svc d p log = Some (Inr Done, log)"
  by (subst pageLoop.simps) simp

lemma NextPage_cases:
  assumes "HasMorePages p" and "NextPage svc p log = (res, p', log1)"
  shows "(\<exists>req err. res = Inl err \<and> log1 = log @ [EvApiCall req (Some err)]) \<or>
         (\<exists>req out. res = Inr out \<and> log1 = log @ [EvApiCall req None])"
proof (cases "svc (pageParams p)")
  case (Inl err)
  with assms have "res = Inl err \<and> log1 = log @ [EvApiCall (pageParams p) (Some err)]"
    by (auto simp: NextPage_def Let_def)
  then show ?thesis by blast
next
  case (Inr out)
  with assms have "res = Inr out \<and> log1 = log @ [EvApiCall (pageParams p) None]"
    by (auto simp: NextPage_def Let_def)
  then show ?thesis by blast
qed

lemma pageLoop_log:
  assumes "pageLoop svc d p log = Some y"
  shows "\<exists>new. snd y = log @ new \<and> settled (fst y) new \<and> (quiet new \<longrightarrow> fst y = Inr Done) \<and>
               EvIdentity \<notin> set new \<and> checkedAfterEachRow new"
proof -
  let ?Q = "\<lambda>(log :: (SupportedResourceType, ListSupportedResourceTypesInput) event list) y.
              \<exists>new. snd y = log @ new \<and> settled (fst y) new \<and> (quiet new \<longrightarrow> fst y = Inr Done) \<and>
                    EvIdentity \<notin> set new \<and> checkedAfterEachRow new"
  have step: "?Q log y"
    if IH: "\<And>svc d paginator log y. f svc d paginator log = Some y \<Longrightarrow> ?Q log y"
      and body: "(if HasMorePages paginator
            then case NextPage svc paginator log of
                   (Inl err, paginator', log1) \<Rightarrow> Some (Inl err, log1)
                 | (Inr output, paginator', log1) \<Rightarrow>
                     (case emitRows d (ResourceTypes output) log1 of
                        (stopped, log2) \<Rightarrow>
                          if stopped then Some (Inr StoppedEarly, log2)
                          else f svc d paginator' log2)
            else Some (Inr Done, log)) = Some y"
    for f svc d paginator log y
  proof (cases "HasMorePages paginator")
    case False
    with body have "y = (Inr Done, log)" by simp
    then show ?thesis by (intro exI [of _ "[]"]) (simp add: settled_def)
  next
    case more: True
    obtain res p' log1 where np: "NextPage svc paginator log = (res, p', log1)"
      by (cases "NextPage svc paginator log") auto
    from NextPage_cases [OF more np] show ?thesis
    proof (elim disjE exE conjE)
      fix req err
      assume r: "res = Inl err" and l: "log1 = log @ [EvApiCall req (Some err)]"
      from body more np r have y: "y = (Inl err, log1)" by simp
      have "settled (Inl err) [EvApiCall req (Some err)]"
        unfolding settled_def by (intro disjI2 exI [of _ "[]"] exI [of _ "EvApiCall req (Some err)"]) simp
      with y l show ?thesis
        by (intro exI [of _ "[EvApiCall req (Some err)]"]) simp
    next
      fix req out
      assume r: "res = Inr out" and l: "log1 = log @ [EvApiCall req None]"
      from emitRows_log [of d "ResourceTypes out" log1] obtain new1 where
        new1: "snd (emitRows d (ResourceTypes out) log1) = log1 @ new1" "EvIdentity \<notin> set new1"
          "checkedAfterEachRow new1"
          "if fst (emitRows d (ResourceTypes out) log1)
            then (\<exists>m. new1 = m @ [EvCheck 0] \<and> quiet m) \<and>
                 rows_of new1 = take (length (rows_of new1)) (ResourceTypes out)
            else quiet new1 \<and> rows_of new1 = ResourceTypes out"
        by blast
      let ?head = "[EvApiCall req None] @ new1"
      have c1: "checkedAfterEachRow ?head" using new1(3) by simp
      show ?thesis
      proof (cases "fst (emitRows d (ResourceTypes out) log1)")
        case True
        with body more np r new1(1) have y: "y = (Inr StoppedEarly, log1 @ new1)"
          by (simp split: prod.splits)
        from True new1(4) obtain m where m: "new1 = m @ [EvCheck 0]" "quiet m" by auto
        then have "?head = ([EvApiCall req None] @ m) @ [EvCheck 0] \<and> quiet ([EvApiCall req None] @ m) \<and>
            verdict (EvCheck 0 :: (SupportedResourceType, ListSupportedResourceTypesInput) event) = Some (Inr StoppedEarly)"
          by simp
        then have s: "settled (Inr StoppedEarly) ?head" unfolding settled_def by blast
        have nq: "\<not> quiet ?head" using m by simp
        from y l s nq new1(2) c1 show ?thesis
          by (intro exI [of _ ?head]) simp
      next
        case False
        with body more np r new1(1) have rec: "f svc d p' (log1 @ new1) = Some y"
          by (simp split: prod.splits)
        from False new1(4) have q1: "quiet new1" by simp
        from IH [OF rec] obtain new2 where
          new2: "snd y = (log1 @ new1) @ new2" "settled (fst y) new2"
            "quiet new2 \<longrightarrow> fst y = Inr Done" "EvIdentity \<notin> set new2" "checkedAfterEachRow new2"
          by blast
        have qh: "quiet ?head" using q1 by simp
        have "snd y = log @ (?head @ new2)" using new2(1) l by simp
        moreover have "settled (fst y) (?head @ new2)" by (rule settled_prepend [OF qh new2(2)])
        moreover have "quiet (?head @ new2) \<longrightarrow> fst y = Inr Done" using new2(3) by simp
        moreover have "EvIdentity \<notin> set (?head @ new2)" using new1(2) new2(4) by simp
        moreover have "checkedAfterEachRow (?head @ new2)"
          using checked_append [OF c1] new2(5) by simp
        ultimately show ?thesis by blast
      qed
    qed
  qed
  show ?thesis
    by (rule pageLoop.raw_induct [where P = "\<lambda>svc d p log y. ?Q log y", OF step assms])
qed

section \<open>The listing against a provider that serves pages\<close>

lemma pageLoop_step:
  "HasMorePages p \<Longrightarrow>
   pageLoop svc d p log =
     (case NextPage svc p log of
        (Inl err, p', log1) \<Rightarrow> Some (Inl err, log1)
      | (Inr output, p', log1) \<Rightarrow>
          (case emitRows d (ResourceTypes output) log1 of
             (stopped, log2) \<Rightarrow>
               if stopped then Some (Inr StoppedEarly, log2) else pageLoop svc d p' log2))"
  by (subst pageLoop.simps) simp

lemma cursor_more: "HasMorePages (cursor i)"
  by (simp add: cursor_def HasMorePages_def NewListSupportedResourceTypesPaginator_def pageToken_def)

lemma cursor_params: "pageParams (cursor i) = pageRequest i"
  by (simp add: cursor_def pageParams_def pageRequest_def NewListSupportedResourceTypesPaginator_def)

lemma paged_answer:
  "i < length pages \<Longrightarrow>
   pagedProvider pages (pageRequest i) =
     (case pages ! i of
        Inl err \<Rightarrow> Inl err
      | Inr items \<Rightarrow>
          Inr \<lparr>ResourceTypes = items,
               OutputNextToken = (if i + 1 < length pages then Some (pageToken (i + 1)) else None)\<rparr>)"
  by (cases "i = 0") (auto simp: pagedProvider_def pageRequest_def pageToken_def split: sum.splits)

lemma paged_NextPage_error:
  assumes "i < length pages" and "pages ! i = Inl err"
  shows "NextPage (pagedProvider pages) (cursor i) log =
           (Inl err, cursor i, log @ [EvApiCall (pageRequest i) (Some err)])"
  using assms cursor_more [of i]
  by (simp add: NextPage_def cursor_params paged_answer)

lemma paged_NextPage_more:
  assumes "i + 1 < length pages" and "pages ! i = Inr items"
  shows "NextPage (pagedProvider pages) (cursor i) log =
           (Inr \<lparr>ResourceTypes = items, OutputNextToken = Some (pageToken (i + 1))\<rparr>,
            cursor (i + 1), log @ [EvApiCall (pageRequest i) None])"
proof -
  have "i < length pages" using assms(1) by simp
  with assms cursor_more [of i] show ?thesis
    by (simp add: NextPage_def cursor_params paged_answer Let_def)
       (simp add: cursor_def NewListSupportedResourceTypesPaginator_def pageToken_def)
qed

lemma paged_NextPage_last:
  assumes "i < length pages" and "\<not> i + 1 < length pages" and "pages ! i = Inr items"
  shows "\<exists>p'. \<not> HasMorePages p' \<and>
           NextPage (pagedProvider pages) (cursor i) log =
             (Inr \<lparr>ResourceTypes = items, OutputNextToken = None\<rparr>, p',
              log @ [EvApiCall (pageRequest i) None])"
  using assms cursor_more [of i]
  by (simp add: NextPage_def cursor_params paged_answer Let_def)
     (simp add: cursor_def NewListSupportedResourceTypesPaginator_def HasMorePages_def)

text \<open>One turn of the loop at page \<open>i\<close> of such a provider.\<close>

lemma paged_step:
  assumes "i < length pages"
  shows "pageLoop (pagedProvider pages) d (cursor i) log =
     (case pages ! i of
        Inl err \<Rightarrow> Some (Inl err, log @ [EvApiCall (pageRequest i) (Some err)])
      | Inr items \<Rightarrow>
          (let run = emitRows d items (log @ [EvApiCall (pageRequest i) None]) in
           if fst run then Some (Inr StoppedEarly, snd run)
           else if i + 1 < length pages then pageLoop (pagedProvider pages) d (cursor (i + 1)) (snd run)
           else Some (Inr Done, snd run)))"
proof (cases "pages ! i")
  case (Inl err)
  then show ?thesis
    using paged_NextPage_error [OF assms Inl, of log]
    by (simp add: pageLoop_step [OF cursor_more])
next
  case (Inr items)
  show ?thesis
  proof (cases "i + 1 < length pages")
    case True
    then show ?thesis
      using paged_NextPage_more [OF True Inr, of log] Inr
      by (simp add: pageLoop_step [OF cursor_more] Let_def split: prod.splits)
  next
    case False
    from paged_NextPage_last [OF assms False Inr, of log] obtain p' where
      p': "\<not> HasMorePages p'"
      and np: "NextPage (pagedProvider pages) (cursor i) log =
             (Inr \<lparr>ResourceTypes = items, OutputNextToken = None\<rparr>, p',
              log @ [EvApiCall (pageRequest i) None])"
      by blast
    show ?thesis
      using Inr False np pageLoop_exhausted [OF p']
      by (simp add: pageLoop_step [OF cursor_more] Let_def split: prod.splits)
  qed
qed


lemma paged_empty:
  "pageLoop (pagedProvider []) d (cursor 0) log =
     Some (Inr Done, log @ [EvApiCall (pageRequest 0) None])"
proof -
  have np: "NextPage (pagedProvider []) (cursor 0) log =
      (Inr \<lparr>ResourceTypes = [], OutputNextToken = None\<rparr>,
       (cursor 0)\<lparr>firstPage := False, nextToken := None\<rparr>,
       log @ [EvApiCall (pageRequest 0) None])"
    using cursor_more [of 0]
    by (simp add: NextPage_def cursor_params Let_def pagedProvider_def)
  have "\<not> HasMorePages ((cursor 0)\<lparr>firstPage := False, nextToken := None\<rparr>)"
    by (simp add: HasMorePages_def)
  from pageLoop_exhausted [OF this] np show ?thesis
    by (simp add: pageLoop_step [OF cursor_more])
qed

text \<open>Against such a provider the loop returns, whatever the pages and the consumer.\<close>

lemma paged_returns:
  "i < length pages \<Longrightarrow> \<exists>y. pageLoop (pagedProvider pages) d (cursor i) log = Some y"
proof (induction "length pages - i" arbitrary: i log)
  case 0
  then show ?case by simp
next
  case (Suc n)
  show ?case
  proof (cases "pages ! i")
    case (Inl err)
    with Suc.prems show ?thesis by (simp add: paged_step)
  next
    case (Inr items)
    let ?run = "emitRows d items (log @ [EvApiCall (pageRequest i) None])"
    show ?thesis
    proof (cases "fst ?run \<or> \<not> i + 1 < length pages")
      case True
      with Suc.prems Inr show ?thesis by (auto simp: paged_step Let_def)
    next
      case False
      then have more: "i + 1 < length pages" and go: "\<not> fst ?run" by simp_all
      from Suc.hyps(2) more have "n = length pages - (i + 1)" by simp
      from Suc.hyps(1) [OF this more, of "snd ?run"] obtain y where
        "pageLoop (pagedProvider pages) d (cursor (i + 1)) (snd ?run) = Some y" by blast
      with Suc.prems Inr more go show ?thesis by (simp add: paged_step Let_def)
    qed
  qed
qed

text \<open>With a consumer that never signals a stop, every page is fetched once and streamed whole.\<close>

lemma paged_all:
  assumes never: "\<forall>n. RowsRemaining d n \<noteq> 0"
  shows "i < length pgs \<Longrightarrow>
         \<exists>log'. pageLoop (pagedProvider (map Inr pgs)) d (cursor i) log = Some (Inr Done, log') \<and>
                rows_of log' = rows_of log @ concat (drop i pgs) \<and>
                calls_of log' = calls_of log @ map (\<lambda>j. (pageRequest j, None)) [i..<length pgs]"
proof (induction "length pgs - i" arbitrary: i log)
  case 0
  then show ?case by simp
next
  case (Suc n)
  let ?pages = "map Inr pgs :: (fault + SupportedResourceType list) list"
  let ?log1 = "log @ [EvApiCall (pageRequest i) None]"
  let ?run = "emitRows d (pgs ! i) ?log1"
  have i: "i < length ?pages" using Suc.prems by simp
  have pg: "?pages ! i = Inr (pgs ! i)" using Suc.prems by simp
  have go: "\<not> fst ?run" using emitRows_never_stops [OF never] by simp
  from emitRows_log [of d "pgs ! i" ?log1] go obtain new where
    new: "snd ?run = ?log1 @ new" "calls_of new = []" "rows_of new = pgs ! i"
    by auto
  have rows1: "rows_of (snd ?run) = rows_of log @ pgs ! i" using new by simp
  have calls1: "calls_of (snd ?run) = calls_of log @ [(pageRequest i, None)]" using new by simp
  have dr: "drop i pgs = pgs ! i # drop (Suc i) pgs"
    using Suc.prems by (simp add: Cons_nth_drop_Suc)
  have up: "[i..<length pgs] = i # [Suc i..<length pgs]"
    using Suc.prems by (simp add: upt_conv_Cons)
  show ?case
  proof (cases "i + 1 < length pgs")
    case True
    from Suc.hyps(2) True have "n = length pgs - (i + 1)" by simp
    from Suc.hyps(1) [OF this True, of "snd ?run"] obtain log' where
      log': "pageLoop (pagedProvider ?pages) d (cursor (i + 1)) (snd ?run) = Some (Inr Done, log')"
        "rows_of log' = rows_of (snd ?run) @ concat (drop (i + 1) pgs)"
        "calls_of log' = calls_of (snd ?run) @ map (\<lambda>j. (pageRequest j, None)) [i + 1..<length pgs]"
      by blast
    have "pageLoop (pagedProvider ?pages) d (cursor i) log = Some (Inr Done, log')"
      using paged_step [OF i, of d log] pg go True log'(1) by (simp add: Let_def)
    moreover have "rows_of log' = rows_of log @ concat (drop i pgs)"
      using log'(2) rows1 dr by simp
    moreover have "calls_of log' = calls_of log @ map (\<lambda>j. (pageRequest j, None)) [i..<length pgs]"
      using log'(3) calls1 up by simp
    ultimately show ?thesis by blast
  next
    case False
    with Suc.prems have last: "Suc i = length pgs" by simp
    have "pageLoop (pagedProvider ?pages) d (cursor i) log = Some (Inr Done, snd ?run)"
      using paged_step [OF i, of d log] pg go False by (simp add: Let_def)
    moreover have "rows_of (snd ?run) = rows_of log @ concat (drop i pgs)"
      using rows1 dr last by simp
    moreover have "calls_of (snd ?run) = calls_of log @ map (\<lambda>j. (pageRequest j, None)) [i..<length pgs]"
      using calls1 up last by simp
    ultimately show ?thesis by blast
  qed
qed

lemma cursor_0:
  "NewListSupportedResourceTypesPaginator (\<lambda>opts. opts\<lparr>Limit := 100, StopOnDuplicateToken := True\<rparr>) = cursor 0"
  by (simp add: cursor_def)

lemma explorer_paged_returns:
  "\<exists>y. listAWSExplorerSupportedTypes (Inr (Some (pagedProvider pages))) d log = Some y"
proof (cases "pages = []")
  case True
  then show ?thesis by (simp add: listAWSExplorerSupportedTypes_def cursor_0 paged_empty)
next
  case False
  then have "0 < length pages" by simp
  from paged_returns [OF this] show ?thesis
    by (simp add: listAWSExplorerSupportedTypes_def cursor_0)
qed

lemma explorer_log:
  assumes "listAWSExplorerSupportedTypes client d log = Some y"
  shows "\<exists>new. snd y = log @ new \<and> settled (fst y) new \<and> EvIdentity \<notin> set new \<and>
               checkedAfterEachRow new"
proof (cases client)
  case (Inl err)
  with assms have "y = (Inl err, log)" by (simp add: listAWSExplorerSupportedTypes_def)
  then show ?thesis by (intro exI [of _ "[]"]) (simp add: settled_def)
next
  case (Inr c)
  show ?thesis
  proof (cases c)
    case None
    with assms Inr have "y = (Inr NoData, log)" by (simp add: listAWSExplorerSupportedTypes_def)
    then show ?thesis by (intro exI [of _ "[]"]) (simp add: settled_def)
  next
    case (Some svc)
    with assms Inr have "pageLoop svc d (cursor 0) log = Some y"
      by (simp add: listAWSExplorerSupportedTypes_def cursor_0)
    from pageLoop_log [OF this] show ?thesis by blast
  qed
qed

lemma listAmisByOwner_calls:
  "\<exists>err. calls_of (snd (listAmisByOwner g entries cc (Inr svc) d log)) =
           calls_of log @ [(amiRequest g entries d, err)]"
proof (cases "svc (amiRequest g entries d)")
  case (Inl err)
  then show ?thesis by (simp add: listAmisByOwner_client)
next
  case (Inr images)
  from emitRows_log [of d images "log @ [EvApiCall (amiRequest g entries d) None]"]
  obtain new where
    "snd (emitRows d images (log @ [EvApiCall (amiRequest g entries d) None])) =
       (log @ [EvApiCall (amiRequest g entries d) None]) @ new" "calls_of new = []"
    by blast
  with Inr show ?thesis by (simp add: listAmisByOwner_client Let_def)
qed

lemma listAmisByOwner_all:
  assumes "svc (amiRequest g entries d) = Inr images" and "\<forall>n. RowsRemaining d n \<noteq> 0"
  shows "\<exists>log'. listAmisByOwner g entries cc (Inr svc) d log = (Inr Done, log') \<and>
                rows_of log' = rows_of log @ images \<and>
                calls_of log' = calls_of log @ [(amiRequest g entries d, None)]"
proof -
  let ?log1 = "log @ [EvApiCall (amiRequest g entries d) None]"
  have go: "\<not> fst (emitRows d images ?log1)"
    using emitRows_never_stops [OF assms(2)] by simp
  from emitRows_log [of d images ?log1] go obtain new where
    new: "snd (emitRows d images ?log1) = ?log1 @ new" "calls_of new = []" "rows_of new = images"
    by auto
  have "listAmisByOwner g entries cc (Inr svc) d log = (Inr Done, ?log1 @ new)"
    using assms(1) go new(1) by (simp add: listAmisByOwner_client Let_def)
  moreover have "rows_of (?log1 @ new) = rows_of log @ images" using new(3) by simp
  moreover have "calls_of (?log1 @ new) = calls_of log @ [(amiRequest g entries d, None)]"
    using new(2) by simp
  ultimately show ?thesis by blast
qed

lemma length_concat_sum: "length (concat xss) = sum_list (map length xss)"
  by (induction xss) simp_all

section \<open>Properties of the row enrichment\<close>

text \<open>
  C3, as worded, promises the explicit alias verbatim whenever one is set. The function
  calls the identity hydrate first (lines 258-262) and returns its error before it looks
  at the image: an image with the alias "amazon" and a failing identity call yields the
  error, not the alias.
\<close>

theorem getImageOwnerAlias_alias_counterexample:
  "getImageOwnerAlias (Inl (Error ''sts: access denied''))
     \<lparr>ImageId = Some ''ami-3'', OwnerId = Some ''222222222222'', ImageOwnerAlias = Some ''amazon''\<rparr>
   = Inl (Error ''sts: access denied'') \<and>
   getImageOwnerAlias (Inl (Error ''sts: access denied''))
     \<lparr>ImageId = Some ''ami-3'', OwnerId = Some ''222222222222'', ImageOwnerAlias = Some ''amazon''\<rparr>
   \<noteq> Inr ''amazon''"
  by (simp add: getImageOwnerAlias_def)

text \<open>
  C3, amended. For every image row: when the identity call fails, the owner-alias
  enrichment returns that error, whatever the image holds; when it has resolved the
  caller's account id, the enrichment returns "self" for an image without alias owned by
  that account, the owner id for an image without alias owned by another account, and
  the explicit alias verbatim whenever the image has one.
\<close>

theorem getImageOwnerAlias_cases:
  "getImageOwnerAlias (Inl err) img = Inl err \<and>
   (ImageOwnerAlias img = None \<and> OwnerId img = Some owner \<and> owner = AccountId cc
      \<longrightarrow> getImageOwnerAlias (Inr cc) img = Inr ''self'') \<and>
   (ImageOwnerAlias img = None \<and> OwnerId img = Some owner \<and> owner \<noteq> AccountId cc
      \<longrightarrow> getImageOwnerAlias (Inr cc) img = Inr owner) \<and>
   (ImageOwnerAlias img = Some alias
      \<longrightarrow> getImageOwnerAlias (Inr cc) img = Inr alias)"
  by (auto simp: getImageOwnerAlias_def)

theorem getImageOwnerAlias_cases_witness:
  "getImageOwnerAlias (Inr \<lparr>Partition = ''aws'', Region = ''us-east-1'', AccountId = ''111111111111''\<rparr>)
     \<lparr>ImageId = Some ''ami-1'', OwnerId = Some ''111111111111'', ImageOwnerAlias = None\<rparr> = Inr ''self'' \<and>
   getImageOwnerAlias (Inr \<lparr>Partition = ''aws'', Region = ''us-east-1'', AccountId = ''111111111111''\<rparr>)
     \<lparr>ImageId = Some ''ami-2'', OwnerId = Some ''222222222222'', ImageOwnerAlias = None\<rparr> = Inr ''222222222222'' \<and>
   getImageOwnerAlias (Inr \<lparr>Partition = ''aws'', Region = ''us-east-1'', AccountId = ''111111111111''\<rparr>)
     \<lparr>ImageId = Some ''ami-3'', OwnerId = Some ''111111111111'', ImageOwnerAlias = Some ''amazon''\<rparr> = Inr ''amazon'' \<and>
   getImageOwnerAlias (Inl (Error ''sts: access denied''))
     \<lparr>ImageId = Some ''ami-1'', OwnerId = Some ''111111111111'', ImageOwnerAlias = None\<rparr>
     = Inl (Error ''sts: access denied'')"
  using
    getImageOwnerAlias_cases [of "Error ''sts: access denied''"
      "\<lparr>ImageId = Some ''ami-1'', OwnerId = Some ''111111111111'', ImageOwnerAlias = None\<rparr>"
      "''111111111111''" "\<lparr>Partition = ''aws'', Region = ''us-east-1'', AccountId = ''111111111111''\<rparr>" "''x''"]
    getImageOwnerAlias_cases [of "Error ''sts: access denied''"
      "\<lparr>ImageId = Some ''ami-2'', OwnerId = Some ''222222222222'', ImageOwnerAlias = None\<rparr>"
      "''222222222222''" "\<lparr>Partition = ''aws'', Region = ''us-east-1'', AccountId = ''111111111111''\<rparr>" "''x''"]
    getImageOwnerAlias_cases [of "Error ''sts: access denied''"
      "\<lparr>ImageId = Some ''ami-3'', OwnerId = Some ''111111111111'', ImageOwnerAlias = Some ''amazon''\<rparr>"
      "''111111111111''" "\<lparr>Partition = ''aws'', Region = ''us-east-1'', AccountId = ''111111111111''\<rparr>" "''amazon''"]
  by simp

section \<open>Properties of the filter translator\<close>




text \<open>
  C6. When the owner scoping is the optional one (the type is not "SHARED_AMI" and the
  predicate map has no \<open>owner_id\<close>) and the identity call fails, the function makes that one
  call and returns the filters of the loop, none of them an owner filter, and no error.
\<close>

theorem buildAmisWithOwnerFilter_identity_failure:
  assumes "rangeOrder entries"
    and "amiType \<noteq> ''SHARED_AMI''"
    and "quals ''owner_id'' = None"
  shows "buildAmisWithOwnerFilter g entries (Inl err) quals amiType log =
           (Inr (rangeFilterQuals g quals entries []), log @ [EvIdentity]) \<and>
         (\<forall>f \<in> set (rangeFilterQuals g quals entries []). Name f \<noteq> Some ''owner-id'')"
proof
  show "buildAmisWithOwnerFilter g entries (Inl err) quals amiType log =
          (Inr (rangeFilterQuals g quals entries []), log @ [EvIdentity])"
    using assms(2,3) by (simp add: buildAmis_identity rangeFilterQuals_map)
  show "\<forall>f \<in> set (rangeFilterQuals g quals entries []). Name f \<noteq> Some ''owner-id''"
    using columnFilters_no_owner [OF assms(1)] by (simp add: rangeFilterQuals_map)
qed

theorem buildAmisWithOwnerFilter_identity_failure_witness:
  "rangeOrder filterQuals \<and> ''OWNED_AMI'' \<noteq> ''SHARED_AMI'' \<and>
   [''name'' \<mapsto> \<lparr>ColumnName = ''name'', QualSlice = [\<lparr>Column = ''name'', Operator = ''='', Value = StringValue ''web''\<rparr>]\<rparr>] ''owner_id'' = None \<and>
   buildAmisWithOwnerFilter getQualsValueByColumn filterQuals (Inl (Error ''sts: access denied''))
     [''name'' \<mapsto> \<lparr>ColumnName = ''name'', QualSlice = [\<lparr>Column = ''name'', Operator = ''='', Value = StringValue ''web''\<rparr>]\<rparr>]
     ''OWNED_AMI'' ([] :: (Image, unit) event list) =
     (Inr [\<lparr>Name = Some ''name'', Values = [''web'']\<rparr>], [EvIdentity])"
proof -
  let ?q = "[''name'' \<mapsto> \<lparr>ColumnName = ''name'', QualSlice = [\<lparr>Column = ''name'', Operator = ''='', Value = StringValue ''web''\<rparr>]\<rparr>]"
  have h2: "''OWNED_AMI'' \<noteq> ''SHARED_AMI''" by simp
  have h3: "?q ''owner_id'' = None" by simp
  have run: "rangeFilterQuals getQualsValueByColumn ?q filterQuals [] = [\<lparr>Name = Some ''name'', Values = [''web'']\<rparr>]"
    by (simp add: filterQuals_def buildFilter_def columnsBool_def getQualsValueByColumn_def)
  from buildAmisWithOwnerFilter_identity_failure [where quals = ?q and g = getQualsValueByColumn
      and err = "Error ''sts: access denied''" and log = "[] :: (Image, unit) event list",
      OF rangeOrder_filterQuals h2 h3]
  show ?thesis using rangeOrder_filterQuals h3 by (simp add: run)
qed

text \<open>
  C8, as worded, fails: the loop ranges over a Go map, whose iteration order the language
  leaves unspecified. Two runs on the same predicate map (\<open>architecture\<close> and \<open>name\<close>), one
  visiting the entries as the source lists them and one in the opposite order, emit the
  two filters in opposite orders.
\<close>

theorem buildAmisWithOwnerFilter_order_counterexample:
  "rangeOrder filterQuals \<and> rangeOrder (rev filterQuals) \<and>
   fst (buildAmisWithOwnerFilter getQualsValueByColumn filterQuals (Inl (Error ''unused''))
          [''architecture'' \<mapsto> \<lparr>ColumnName = ''architecture'', QualSlice = [\<lparr>Column = ''architecture'', Operator = ''='', Value = StringValue ''x86_64''\<rparr>]\<rparr>,
           ''name'' \<mapsto> \<lparr>ColumnName = ''name'', QualSlice = [\<lparr>Column = ''name'', Operator = ''='', Value = StringValue ''web''\<rparr>]\<rparr>]
          ''SHARED_AMI'' ([] :: (Image, unit) event list)) =
     Inr [\<lparr>Name = Some ''architecture'', Values = [''x86_64'']\<rparr>, \<lparr>Name = Some ''name'', Values = [''web'']\<rparr>] \<and>
   fst (buildAmisWithOwnerFilter getQualsValueByColumn (rev filterQuals) (Inl (Error ''unused''))
          [''architecture'' \<mapsto> \<lparr>ColumnName = ''architecture'', QualSlice = [\<lparr>Column = ''architecture'', Operator = ''='', Value = StringValue ''x86_64''\<rparr>]\<rparr>,
           ''name'' \<mapsto> \<lparr>ColumnName = ''name'', QualSlice = [\<lparr>Column = ''name'', Operator = ''='', Value = StringValue ''web''\<rparr>]\<rparr>]
          ''SHARED_AMI'' ([] :: (Image, unit) event list)) =
     Inr [\<lparr>Name = Some ''name'', Values = [''web'']\<rparr>, \<lparr>Name = Some ''architecture'', Values = [''x86_64'']\<rparr>]"
  by (simp add: rangeOrder_def buildAmisWithOwnerFilter_def filterQuals_def buildFilter_def
      columnsBool_def getQualsValueByColumn_def)

text \<open>
  C8, amended. For every predicate map, the filters of the present columns come out in
  the order in which the run visits the static map, an order the language does not fix,
  followed by at most one owner filter. A second run on the same predicate map, whatever
  its order, fails exactly when the first does, makes the same identity calls, and
  returns the same filters with the same multiplicities, the owner filter last again;
  the order of the others may differ.
\<close>

theorem buildAmisWithOwnerFilter_order:
  assumes "rangeOrder entries" and "rangeOrder entries'"
  shows "(\<forall>fs. fst (buildAmisWithOwnerFilter g entries cc quals amiType log) = Inr fs \<longrightarrow>
            (\<exists>tl. fs = columnFilters g quals entries @ tl \<and> length tl \<le> 1 \<and>
                  fst (buildAmisWithOwnerFilter g entries' cc quals amiType log) =
                    Inr (columnFilters g quals entries' @ tl) \<and>
                  mset (columnFilters g quals entries' @ tl) = mset fs)) \<and>
         (\<forall>p. fst (buildAmisWithOwnerFilter g entries cc quals amiType log) = Inl p \<longrightarrow>
              fst (buildAmisWithOwnerFilter g entries' cc quals amiType log) = Inl p) \<and>
         snd (buildAmisWithOwnerFilter g entries cc quals amiType log) =
           snd (buildAmisWithOwnerFilter g entries' cc quals amiType log)"
proof -
  have m: "mset (columnFilters g quals entries') = mset (columnFilters g quals entries)"
    using assms by (intro columnFilters_mset) (simp add: rangeOrder_def)
  show ?thesis
  proof (cases "amiType = ''SHARED_AMI''")
    case True
    then show ?thesis using m by (simp add: buildAmis_shared)
  next
    case ami: False
    show ?thesis
    proof (cases "quals ''owner_id'' = None")
      case True
      show ?thesis
      proof (cases cc)
        case (Inl err)
        with ami True m show ?thesis by (simp add: buildAmis_identity)
      next
        case (Inr a)
        with ami True m show ?thesis by (simp add: buildAmis_identity)
      qed
    next
      case False
      show ?thesis
      proof (cases "g quals ''owner_id'' ''string''")
        case (GoString v)
        with ami False m show ?thesis by (simp add: buildAmis_explicit_owner)
      qed (use ami False in \<open>simp_all add: buildAmis_explicit_owner\<close>)
    qed
  qed
qed

theorem buildAmisWithOwnerFilter_order_witness:
  "rangeOrder filterQuals \<and> rangeOrder (rev filterQuals) \<and>
   mset [\<lparr>Name = Some ''name'', Values = [''web'']\<rparr>, \<lparr>Name = Some ''architecture'', Values = [''x86_64'']\<rparr>] =
   mset [\<lparr>Name = Some ''architecture'', Values = [''x86_64'']\<rparr>, \<lparr>Name = Some ''name'', Values = [''web'']\<rparr>] \<and>
   snd (buildAmisWithOwnerFilter getQualsValueByColumn filterQuals (Inl (Error ''unused''))
          [''architecture'' \<mapsto> \<lparr>ColumnName = ''architecture'', QualSlice = [\<lparr>Column = ''architecture'', Operator = ''='', Value = StringValue ''x86_64''\<rparr>]\<rparr>,
           ''name'' \<mapsto> \<lparr>ColumnName = ''name'', QualSlice = [\<lparr>Column = ''name'', Operator = ''='', Value = StringValue ''web''\<rparr>]\<rparr>]
          ''SHARED_AMI'' ([] :: (Image, unit) event list)) =
   snd (buildAmisWithOwnerFilter getQualsValueByColumn (rev filterQuals) (Inl (Error ''unused''))
          [''architecture'' \<mapsto> \<lparr>ColumnName = ''architecture'', QualSlice = [\<lparr>Column = ''architecture'', Operator = ''='', Value = StringValue ''x86_64''\<rparr>]\<rparr>,
           ''name'' \<mapsto> \<lparr>ColumnName = ''name'', QualSlice = [\<lparr>Column = ''name'', Operator = ''='', Value = StringValue ''web''\<rparr>]\<rparr>]
          ''SHARED_AMI'' ([] :: (Image, unit) event list))"
proof -
  let ?q = "[''architecture'' \<mapsto> \<lparr>ColumnName = ''architecture'', QualSlice = [\<lparr>Column = ''architecture'', Operator = ''='', Value = StringValue ''x86_64''\<rparr>]\<rparr>,
             ''name'' \<mapsto> \<lparr>ColumnName = ''name'', QualSlice = [\<lparr>Column = ''name'', Operator = ''='', Value = StringValue ''web''\<rparr>]\<rparr>]"
  let ?B = "\<lambda>entries. buildAmisWithOwnerFilter getQualsValueByColumn entries (Inl (Error ''unused'')) ?q
          ''SHARED_AMI'' ([] :: (Image, unit) event list)"
  have c1: "columnFilters getQualsValueByColumn ?q filterQuals =
      [\<lparr>Name = Some ''architecture'', Values = [''x86_64'']\<rparr>, \<lparr>Name = Some ''name'', Values = [''web'']\<rparr>]"
    by (simp add: columnFilters_def present_def filterQuals_def buildFilter_def
        columnsBool_def getQualsValueByColumn_def)
  have c2: "columnFilters getQualsValueByColumn ?q (rev filterQuals) =
      [\<lparr>Name = Some ''name'', Values = [''web'']\<rparr>, \<lparr>Name = Some ''architecture'', Values = [''x86_64'']\<rparr>]"
    by (simp add: columnFilters_def present_def filterQuals_def buildFilter_def
        columnsBool_def getQualsValueByColumn_def)
  have out: "fst (?B filterQuals) = Inr (columnFilters getQualsValueByColumn ?q filterQuals)"
    by (simp add: buildAmis_shared)
  note t = buildAmisWithOwnerFilter_order [where quals = ?q and g = getQualsValueByColumn
      and cc = "Inl (Error ''unused'')" and amiType = "''SHARED_AMI''"
      and log = "[] :: (Image, unit) event list", OF rangeOrder_filterQuals rangeOrder_rev]
  from t out obtain tl where
    tl: "columnFilters getQualsValueByColumn ?q filterQuals =
           columnFilters getQualsValueByColumn ?q filterQuals @ tl"
    and ms: "mset (columnFilters getQualsValueByColumn ?q (rev filterQuals) @ tl) =
           mset (columnFilters getQualsValueByColumn ?q filterQuals)"
    by blast
  from tl have "tl = []" by simp
  with ms have ms': "mset (columnFilters getQualsValueByColumn ?q (rev filterQuals)) =
           mset (columnFilters getQualsValueByColumn ?q filterQuals)" by simp
  from t have s: "snd (?B filterQuals) = snd (?B (rev filterQuals))" by blast
  from ms' s rangeOrder_filterQuals rangeOrder_rev show ?thesis
    unfolding c1 c2 by blast
qed



section \<open>Properties of the listing functions\<close>

text \<open>
  C10. With a nil client from \<open>ResourceExplorerClient\<close> (a region without the service),
  \<open>listAWSExplorerSupportedTypes\<close> returns without error and leaves the log as it found
  it: no provider call, no row streamed.
\<close>

theorem listAWSExplorerSupportedTypes_nil_client:
  "listAWSExplorerSupportedTypes (Inr None) d log = Some (Inr NoData, log)"
  by (simp add: listAWSExplorerSupportedTypes_def)

text \<open>
  C1, as worded, fails for \<open>listAmisByOwner\<close>: it calls the provider once, with a request
  that has no continuation token, and streams that one response. Against a provider
  holding pages of 50, 50 and 3 images it streams the 50 images of the first page and
  returns normally, not 103.
\<close>

theorem listAmisByOwner_pages_counterexample:
  "fst (listAmisByOwner getQualsValueByColumn filterQuals (Inl (Error ''unused''))
          (Inr (pagedImages
             [replicate 50 \<lparr>ImageId = Some ''ami-1'', OwnerId = Some ''111111111111'', ImageOwnerAlias = None\<rparr>,
              replicate 50 \<lparr>ImageId = Some ''ami-2'', OwnerId = Some ''111111111111'', ImageOwnerAlias = None\<rparr>,
              replicate 3 \<lparr>ImageId = Some ''ami-3'', OwnerId = Some ''111111111111'', ImageOwnerAlias = None\<rparr>]))
          \<lparr>KeyColumnQuals = [''owner_id'' \<mapsto> StringValue ''111111111111''], Quals = Map.empty,
            RowsRemaining = (\<lambda>n. 2147483647)\<rparr> []) = Inr Done \<and>
   length (rows_of (snd (listAmisByOwner getQualsValueByColumn filterQuals (Inl (Error ''unused''))
          (Inr (pagedImages
             [replicate 50 \<lparr>ImageId = Some ''ami-1'', OwnerId = Some ''111111111111'', ImageOwnerAlias = None\<rparr>,
              replicate 50 \<lparr>ImageId = Some ''ami-2'', OwnerId = Some ''111111111111'', ImageOwnerAlias = None\<rparr>,
              replicate 3 \<lparr>ImageId = Some ''ami-3'', OwnerId = Some ''111111111111'', ImageOwnerAlias = None\<rparr>]))
          \<lparr>KeyColumnQuals = [''owner_id'' \<mapsto> StringValue ''111111111111''], Quals = Map.empty,
            RowsRemaining = (\<lambda>n. 2147483647)\<rparr> []))) = 50"
proof -
  let ?p1 = "replicate 50 \<lparr>ImageId = Some ''ami-1'', OwnerId = Some ''111111111111'', ImageOwnerAlias = None\<rparr>"
  let ?pages = "[?p1,
              replicate 50 \<lparr>ImageId = Some ''ami-2'', OwnerId = Some ''111111111111'', ImageOwnerAlias = None\<rparr>,
              replicate 3 \<lparr>ImageId = Some ''ami-3'', OwnerId = Some ''111111111111'', ImageOwnerAlias = None\<rparr>]"
  let ?d = "\<lparr>KeyColumnQuals = [''owner_id'' \<mapsto> StringValue ''111111111111''], Quals = Map.empty,
            RowsRemaining = (\<lambda>n. 2147483647)\<rparr>"
  have a: "pagedImages ?pages (amiRequest getQualsValueByColumn filterQuals ?d) = Inr ?p1"
    by (simp add: pagedImages_def)
  have n: "\<forall>n. RowsRemaining ?d n \<noteq> 0" by simp
  from listAmisByOwner_all [where svc = "pagedImages ?pages" and d = ?d and g = getQualsValueByColumn
      and entries = filterQuals and cc = "Inl (Error ''unused'')" and log = "[]", OF a n] obtain log' where
    "listAmisByOwner getQualsValueByColumn filterQuals (Inl (Error ''unused'')) (Inr (pagedImages ?pages)) ?d [] =
       (Inr Done, log')" "rows_of log' = ?p1"
    by auto
  then show ?thesis by simp
qed

text \<open>
  C1, amended. With a consumer that never signals a stop: for every provider response in
  pages, \<open>listAWSExplorerSupportedTypes\<close> fetches each page once, in order, streams every
  item of every page (103 rows for pages of 50, 50 and 3) and returns normally at the end
  of its loop; \<open>listAmisByOwner\<close> makes its single provider call, streams every image of
  that one response and returns normally at the end of its loop.
\<close>

theorem listing_streams_every_item:
  assumes "\<forall>n. RowsRemaining d n \<noteq> 0"
  shows "(pgs \<noteq> [] \<longrightarrow>
           (\<exists>log. listAWSExplorerSupportedTypes (Inr (Some (pagedProvider (map Inr pgs)))) d [] =
                    Some (Inr Done, log) \<and>
                  rows_of log = concat pgs \<and>
                  length (rows_of log) = sum_list (map length pgs) \<and>
                  calls_of log = map (\<lambda>j. (pageRequest j, None)) [0..<length pgs])) \<and>
         (svc (amiRequest g entries d) = Inr images \<longrightarrow>
           (\<exists>log. listAmisByOwner g entries cc (Inr svc) d [] = (Inr Done, log) \<and>
                  rows_of log = images \<and>
                  calls_of log = [(amiRequest g entries d, None)]))"
proof (intro conjI impI)
  assume "pgs \<noteq> []"
  then have "0 < length pgs" by simp
  from paged_all [OF assms this, of "[]"] obtain log where
    log: "pageLoop (pagedProvider (map Inr pgs)) d (cursor 0) [] = Some (Inr Done, log)"
      "rows_of log = concat pgs"
      "calls_of log = map (\<lambda>j. (pageRequest j, None)) [0..<length pgs]"
    by auto
  from log(2) have "length (rows_of log) = sum_list (map length pgs)"
    by (simp add: length_concat_sum)
  with log show "\<exists>log. listAWSExplorerSupportedTypes (Inr (Some (pagedProvider (map Inr pgs)))) d [] =
                    Some (Inr Done, log) \<and>
                  rows_of log = concat pgs \<and>
                  length (rows_of log) = sum_list (map length pgs) \<and>
                  calls_of log = map (\<lambda>j. (pageRequest j, None)) [0..<length pgs]"
    by (simp add: listAWSExplorerSupportedTypes_def cursor_0)
next
  assume "svc (amiRequest g entries d) = Inr images"
  from listAmisByOwner_all [where svc = svc and d = d and g = g and entries = entries
      and cc = cc and log = "[]", OF this assms]
  show "\<exists>log. listAmisByOwner g entries cc (Inr svc) d [] = (Inr Done, log) \<and>
                  rows_of log = images \<and>
                  calls_of log = [(amiRequest g entries d, None)]"
    by simp
qed

theorem listing_streams_every_item_witness:
  "(\<exists>log. listAWSExplorerSupportedTypes
            (Inr (Some (pagedProvider (map Inr
               [replicate 50 \<lparr>ResourceType = Some ''ec2:instance'', Service = Some ''ec2''\<rparr>,
                replicate 50 \<lparr>ResourceType = Some ''s3:bucket'', Service = Some ''s3''\<rparr>,
                replicate 3 \<lparr>ResourceType = Some ''sqs:queue'', Service = Some ''sqs''\<rparr>]))))
            \<lparr>KeyColumnQuals = Map.empty, Quals = Map.empty, RowsRemaining = (\<lambda>n. 2147483647)\<rparr> [] =
              Some (Inr Done, log) \<and>
          length (rows_of log) = 103 \<and> length (calls_of log) = 3) \<and>
   (\<exists>log. listAmisByOwner getQualsValueByColumn filterQuals (Inl (Error ''unused''))
            (Inr (\<lambda>input. Inr (replicate 103 \<lparr>ImageId = Some ''ami-1'', OwnerId = Some ''111111111111'', ImageOwnerAlias = None\<rparr>)))
            \<lparr>KeyColumnQuals = Map.empty, Quals = Map.empty, RowsRemaining = (\<lambda>n. 2147483647)\<rparr> [] =
              (Inr Done, log) \<and>
          length (rows_of log) = 103 \<and> length (calls_of log) = 1)"
proof -
  let ?pgs = "[replicate 50 \<lparr>ResourceType = Some ''ec2:instance'', Service = Some ''ec2''\<rparr>,
                replicate 50 \<lparr>ResourceType = Some ''s3:bucket'', Service = Some ''s3''\<rparr>,
                replicate 3 \<lparr>ResourceType = Some ''sqs:queue'', Service = Some ''sqs''\<rparr>]"
  let ?d = "\<lparr>KeyColumnQuals = Map.empty, Quals = Map.empty, RowsRemaining = (\<lambda>n. 2147483647)\<rparr>"
  let ?images = "replicate 103 \<lparr>ImageId = Some ''ami-1'', OwnerId = Some ''111111111111'', ImageOwnerAlias = None\<rparr>"
  let ?svc = "\<lambda>input :: DescribeImagesInput. (Inr ?images :: fault + Image list)"
  have n: "\<forall>n. RowsRemaining ?d n \<noteq> 0" by simp
  note t = listing_streams_every_item [where d = ?d and pgs = ?pgs and svc = ?svc
      and g = getQualsValueByColumn and entries = filterQuals and images = ?images
      and cc = "Inl (Error ''unused'')", OF n]
  have ne: "?pgs \<noteq> []" by simp
  have a: "?svc (amiRequest getQualsValueByColumn filterQuals ?d) = Inr ?images" by simp
  from t ne obtain log1 where
    l1: "listAWSExplorerSupportedTypes (Inr (Some (pagedProvider (map Inr ?pgs)))) ?d [] = Some (Inr Done, log1)"
      "length (rows_of log1) = sum_list (map length ?pgs)"
      "calls_of log1 = map (\<lambda>j. (pageRequest j, None)) [0..<length ?pgs]"
    by blast
  from t a obtain log2 where
    l2: "listAmisByOwner getQualsValueByColumn filterQuals (Inl (Error ''unused'')) (Inr ?svc) ?d [] = (Inr Done, log2)"
      "rows_of log2 = ?images"
      "calls_of log2 = [(amiRequest getQualsValueByColumn filterQuals ?d, None)]"
    by blast
  from l1(2) have r1: "length (rows_of log1) = 103" by simp
  from l1(3) have c1: "length (calls_of log1) = 3" by simp
  from l2(2) have r2: "length (rows_of log2) = 103" by simp
  from l2(3) have c2: "length (calls_of log2) = 1" by simp
  from l1(1) r1 c1 l2(1) r2 c2 show ?thesis by blast
qed

end
